theory Spec2Isabelle
  imports Complex_Main "HOL-Library.Word" "HOL-Library.Signed_Division"
begin

section \<open>The executions table of \<open>src/deepHaven/executions.py\<close>\<close>

text \<open>
  The script builds one ticking table. Each of its fourteen columns is a formula in the
  Java-like query language, evaluated once for every new row; the only input of a formula
  is the row index \<open>ii\<close> (a Java \<open>long\<close>) and, for five of the columns, one call of
  \<open>Math.random()\<close>. The embedding below follows the formulas one by one, with Java's
  arithmetic: \<open>long\<close> is a 64-bit word and \<open>int\<close> a 32-bit word, both read in two's
  complement; \<open>%\<close> truncates towards zero; an array read outside the array throws.
\<close>

subsection \<open>Machine integers\<close>

type_synonym jlong = "64 word"
type_synonym jint = "32 word"

text \<open>Java's \<open>%\<close> on \<open>long\<close>: the remainder has the sign of the dividend.\<close>

definition long_rem :: "jlong \<Rightarrow> jlong \<Rightarrow> jlong" where
  "long_rem a b = word_of_int (sint a smod sint b)"

text \<open>The narrowing cast \<open>(int)\<close> of a \<open>long\<close> keeps the low 32 bits.\<close>

definition int_cast :: "jlong \<Rightarrow> jint" where
  "int_cast a = ucast a"

subsection \<open>Arrays\<close>

datatype error = ArrayIndexOutOfBounds

text \<open>An index is inside an array when \<open>0 \<le> i < length\<close>.\<close>

definition in_bounds :: "'a list \<Rightarrow> jint \<Rightarrow> bool" where
  "in_bounds xs i \<longleftrightarrow> 0 \<le> sint i \<and> sint i < int (length xs)"

text \<open>\<^verbatim>\<open>new String[]{...}[i]\<close>: the read throws unless the index is inside the array.\<close>

definition array_get :: "'a list \<Rightarrow> jint \<Rightarrow> error + 'a" where
  "array_get xs i =
     (if in_bounds xs i then Inr (xs ! nat (sint i)) else Inl ArrayIndexOutOfBounds)"

definition symbols :: "string list" where
  "symbols = [''UST 2Y'', ''UST 5Y'', ''UST 10Y'', ''UST 30Y'', ''SOFR 3M'', ''TIPS 10Y'']"

definition cusips :: "string list" where
  "cusips = [''91282CJL6'', ''91282CJM4'', ''91282CJN2'', ''912810TM0'', ''91282CJP7'',
     ''912810TP3'']"

definition venues :: "string list" where
  "venues = [''D2C'', ''D2D'', ''ECN'', ''RFQ'', ''CLOB'']"

definition counterparties :: "string list" where
  "counterparties = [''GS'', ''JPM'', ''MS'', ''BARC'', ''CITI'', ''BofA'', ''HSBC'', ''DB'']"

definition exec_statuses :: "string list" where
  "exec_statuses = [''FILLED'', ''FILLED'', ''FILLED'', ''PARTIAL'', ''REJECTED'']"

definition traders :: "string list" where
  "traders = [''JSMITH'', ''ADOE'', ''MWONG'', ''KPATEL'']"

definition books :: "string list" where
  "books = [''RATES-NY'', ''RATES-LDN'', ''RATES-TKY'']"

subsection \<open>Formatting an integer with leading zeros\<close>

definition digit_char :: "nat \<Rightarrow> char" where
  "digit_char d = char_of (48 + d)"

text \<open>The decimal digits of a natural number, most significant first, no leading zero.\<close>

function dec_digits :: "nat \<Rightarrow> string" where
  "dec_digits n = (if n < 10 then [digit_char n] else dec_digits (n div 10) @ [digit_char (n mod 10)])"
  by pat_completeness auto
termination
  by (relation "measure (\<lambda>n. n)") auto

declare dec_digits.simps [simp del]

text \<open>
  \<^verbatim>\<open>String.format("%0wd", x)\<close>: the digits of \<open>x\<close> padded with zeros on the left up to
  width \<open>w\<close>; a minus sign comes first and counts in the width; a number wider than
  \<open>w\<close> is printed whole.
\<close>

definition format_d :: "nat \<Rightarrow> int \<Rightarrow> string" where
  "format_d w x =
     (let ds = dec_digits (nat \<bar>x\<bar>) in
      if 0 \<le> x then replicate (w - length ds) (CHR ''0'') @ ds
      else CHR ''-'' # replicate (w - 1 - length ds) (CHR ''0'') @ ds)"

subsection \<open>The columns that depend on \<open>ii\<close> only\<close>

text \<open>\<^verbatim>\<open>ExecId = `EXE-` + String.format(`%06d`, ii)\<close>\<close>

definition exec_id :: "jlong \<Rightarrow> string" where
  "exec_id ii = ''EXE-'' @ format_d 6 (sint ii)"

text \<open>\<^verbatim>\<open>OrderId = `ORD-` + String.format(`%04d`, (int)(ii % 500))\<close>\<close>

definition order_id :: "jlong \<Rightarrow> string" where
  "order_id ii = ''ORD-'' @ format_d 4 (sint (int_cast (long_rem ii 500)))"

text \<open>\<^verbatim>\<open>Symbol = new String[]{`UST 2Y`, ..., `TIPS 10Y`}[(int)(ii % 6)]\<close>\<close>

definition symbol :: "jlong \<Rightarrow> error + string" where
  "symbol ii = array_get symbols (int_cast (long_rem ii 6))"

text \<open>\<^verbatim>\<open>CUSIP = new String[]{`91282CJL6`, ..., `912810TP3`}[(int)(ii % 6)]\<close>\<close>

definition cusip :: "jlong \<Rightarrow> error + string" where
  "cusip ii = array_get cusips (int_cast (long_rem ii 6))"

text \<open>\<^verbatim>\<open>Side = (ii % 2 == 0) ? `BUY` : `SELL`\<close>\<close>

definition side :: "jlong \<Rightarrow> string" where
  "side ii = (if long_rem ii 2 = 0 then ''BUY'' else ''SELL'')"

text \<open>\<^verbatim>\<open>Venue = new String[]{`D2C`, `D2D`, `ECN`, `RFQ`, `CLOB`}[(int)(ii % 5)]\<close>\<close>

definition venue :: "jlong \<Rightarrow> error + string" where
  "venue ii = array_get venues (int_cast (long_rem ii 5))"

text \<open>\<^verbatim>\<open>Trader = new String[]{`JSMITH`, `ADOE`, `MWONG`, `KPATEL`}[(int)(ii % 4)]\<close>\<close>

definition trader :: "jlong \<Rightarrow> error + string" where
  "trader ii = array_get traders (int_cast (long_rem ii 4))"

text \<open>\<^verbatim>\<open>Book = new String[]{`RATES-NY`, `RATES-LDN`, `RATES-TKY`}[(int)(ii % 3)]\<close>\<close>

definition book :: "jlong \<Rightarrow> error + string" where
  "book ii = array_get books (int_cast (long_rem ii 3))"

subsection \<open>Doubles\<close>

text \<open>
  A finite double is a rational number, and every arithmetic operation of Java on doubles
  is the exact operation followed by rounding to the nearest double, ties to even
  (IEEE 754 binary64). The two functions below find the binary exponent of a positive
  rational by halving or doubling it.
\<close>

function ilog2_up :: "rat \<Rightarrow> int" where
  "ilog2_up x = (if x < 2 then 0 else ilog2_up (x / 2) + 1)"
  by pat_completeness auto
termination
proof (relation "measure (\<lambda>x. nat \<lfloor>x\<rfloor>)")
  show "wf (measure (\<lambda>x::rat. nat \<lfloor>x\<rfloor>))" by simp
next
  fix x :: rat
  assume "\<not> x < 2"
  then have x: "2 \<le> x" by simp
  have "of_int \<lfloor>x / 2\<rfloor> \<le> x / 2" by (rule of_int_floor_le)
  also have "\<dots> \<le> x - 1" using x by simp
  also have "\<dots> < of_int \<lfloor>x\<rfloor>" by linarith
  finally have "\<lfloor>x / 2\<rfloor> < \<lfloor>x\<rfloor>" by (simp only: of_int_less_iff)
  moreover have "0 < \<lfloor>x\<rfloor>" using x by linarith
  ultimately show "(x / 2, x) \<in> measure (\<lambda>x. nat \<lfloor>x\<rfloor>)" by simp
qed

function ilog2_down :: "rat \<Rightarrow> int" where
  "ilog2_down x = (if x \<le> 0 \<or> 1 \<le> x then 0 else ilog2_down (2 * x) - 1)"
  by pat_completeness auto
termination
proof (relation "measure (\<lambda>x. nat \<lceil>1 / x\<rceil>)")
  show "wf (measure (\<lambda>x::rat. nat \<lceil>1 / x\<rceil>))" by simp
next
  fix x :: rat
  assume "\<not> (x \<le> 0 \<or> 1 \<le> x)"
  then have x: "0 < x" "x < 1" by simp_all
  have "\<lceil>1 / (2 * x)\<rceil> < \<lceil>1 / x\<rceil>"
  proof (cases "x \<le> 1 / 2")
    case True
    then have "1 / (2 * x) + 1 \<le> 1 / x" using x by (simp add: field_simps)
    moreover have "of_int \<lceil>1 / (2 * x)\<rceil> < 1 / (2 * x) + 1" by linarith
    moreover have "1 / x \<le> of_int \<lceil>1 / x\<rceil>" by linarith
    ultimately have "(of_int \<lceil>1 / (2 * x)\<rceil> :: rat) < of_int \<lceil>1 / x\<rceil>" by linarith
    then show ?thesis by (simp only: of_int_less_iff)
  next
    case False
    then have "1 / (2 * x) \<le> 1" using x by (simp add: field_simps)
    then have "\<lceil>1 / (2 * x)\<rceil> \<le> 1" by (simp add: ceiling_le_iff)
    moreover have "1 < 1 / x" using x by (simp add: field_simps)
    then have "1 < \<lceil>1 / x\<rceil>" by (simp add: less_ceiling_iff)
    ultimately show ?thesis by linarith
  qed
  moreover have "0 < \<lceil>1 / x\<rceil>" using x by simp
  ultimately show "(2 * x, x) \<in> measure (\<lambda>x. nat \<lceil>1 / x\<rceil>)" by simp
qed

declare ilog2_up.simps [simp del] ilog2_down.simps [simp del]

text \<open>
  The binary exponent of a positive number: \<open>2 ^ e \<le> x < 2 ^ (e + 1)\<close>.
\<close>

definition exponent :: "rat \<Rightarrow> int" where
  "exponent x = (if 1 \<le> x then ilog2_up x else ilog2_down x)"

definition pow2 :: "int \<Rightarrow> rat" where
  "pow2 e = (if 0 \<le> e then 2 ^ nat e else 1 / 2 ^ nat (- e))"

text \<open>Rounding to the nearest integer, a tie going to the even neighbour.\<close>

definition round_half_even :: "rat \<Rightarrow> int" where
  "round_half_even q =
     (let f = \<lfloor>q\<rfloor>; r = q - of_int f in
      if r < 1 / 2 then f else if 1 / 2 < r then f + 1 else if even f then f else f + 1)"

text \<open>
  The double nearest to \<open>x\<close>: 53 significant bits, so the unit in the last place of
  \<open>x\<close> is \<open>2 ^ (e - 52)\<close>. The exponent is not bounded here; every value of this
  table lies between \<open>2 ^ - 53\<close> and \<open>2 ^ 40\<close>, far inside the range of normal
  doubles.
\<close>

definition fl :: "rat \<Rightarrow> rat" where
  "fl x =
     (if x = 0 then 0
      else let ulp = pow2 (exponent \<bar>x\<bar> - 52)
           in sgn x * of_int (round_half_even (\<bar>x\<bar> / ulp)) * ulp)"

definition dadd :: "rat \<Rightarrow> rat \<Rightarrow> rat" where
  "dadd a b = fl (a + b)"

definition dmul :: "rat \<Rightarrow> rat \<Rightarrow> rat" where
  "dmul a b = fl (a * b)"

definition ddiv :: "rat \<Rightarrow> rat \<Rightarrow> rat" where
  "ddiv a b = fl (a / b)"

text \<open>The widening conversions of a \<open>long\<close> and of an \<open>int\<close> to \<open>double\<close>.\<close>

definition long_to_double :: "jlong \<Rightarrow> rat" where
  "long_to_double a = fl (of_int (sint a))"

definition int_to_double :: "jint \<Rightarrow> rat" where
  "int_to_double a = of_int (sint a)"

text \<open>
  \<open>Math.round(double)\<close>: the closest \<open>long\<close>, a tie going up, that is
  \<open>\<lfloor>x + 1/2\<rfloor>\<close>, kept inside the range of \<open>long\<close>.
\<close>

definition java_round :: "rat \<Rightarrow> jlong" where
  "java_round x = word_of_int (max (- (2 ^ 63)) (min (2 ^ 63 - 1) \<lfloor>x + 1 / 2\<rfloor>))"

subsection \<open>The columns that call \<open>Math.random()\<close>\<close>

text \<open>
  Each of these columns calls \<open>Math.random()\<close> once; the argument \<open>u\<close> is the double
  that call returned. The integer constants next to a double are converted to the same
  number as a double.
\<close>

text \<open>\<^verbatim>\<open>Quantity = (int)(Math.round(Math.random() * 50 + 1) * 1_000_000)\<close>\<close>

definition quantity :: "rat \<Rightarrow> jint" where
  "quantity u = int_cast (java_round (dadd (dmul u 50) 1) * 1000000)"

text \<open>\<^verbatim>\<open>Price = 99.0 + Math.round(Math.random() * 400) / 128.0\<close>\<close>

definition price :: "rat \<Rightarrow> rat" where
  "price u = dadd 99 (ddiv (long_to_double (java_round (dmul u 400))) 128)"

text \<open>\<^verbatim>\<open>Yield = 3.5 + Math.round(Math.random() * 200) / 100.0\<close>\<close>

definition yield :: "rat \<Rightarrow> rat" where
  "yield u = dadd (7 / 2) (ddiv (long_to_double (java_round (dmul u 200))) 100)"

text \<open>\<^verbatim>\<open>Notional = Quantity * Price / 100.0\<close>\<close>

definition notional :: "jint \<Rightarrow> rat \<Rightarrow> rat" where
  "notional q p = ddiv (dmul (int_to_double q) p) 100"

text \<open>\<^verbatim>\<open>Counterparty = new String[]{`GS`, ..., `DB`}[(int)(Math.round(Math.random() * 7))]\<close>\<close>

definition counterparty :: "rat \<Rightarrow> error + string" where
  "counterparty u = array_get counterparties (int_cast (java_round (dmul u 7)))"

text \<open>\<^verbatim>\<open>ExecStatus = new String[]{`FILLED`, `FILLED`, `FILLED`, `PARTIAL`, `REJECTED`}[(int)(Math.round(Math.random() * 4))]\<close>\<close>

definition exec_status :: "rat \<Rightarrow> error + string" where
  "exec_status u = array_get exec_statuses (int_cast (java_round (dmul u 4)))"

subsection \<open>One row\<close>

record execution =
  ExecId :: string
  OrderId :: string
  Symbol :: string
  CUSIP :: string
  Side :: string
  Quantity :: jint
  Price :: rat
  Yield :: rat
  Notional :: rat
  Venue :: string
  Counterparty :: string
  ExecStatus :: string
  Trader :: string
  Book :: string

text \<open>The five results of \<open>Math.random()\<close> that one row consumes, named by their column.\<close>

record draws =
  u_quantity :: rat
  u_price :: rat
  u_yield :: rat
  u_counterparty :: rat
  u_exec_status :: rat

text \<open>\<open>Math.random()\<close> returns a double \<open>u\<close> with \<open>0 \<le> u < 1\<close>.\<close>

definition unit_draw :: "rat \<Rightarrow> bool" where
  "unit_draw u \<longleftrightarrow> 0 \<le> u \<and> u < 1"

definition unit_draws :: "draws \<Rightarrow> bool" where
  "unit_draws d \<longleftrightarrow>
     unit_draw (u_quantity d) \<and> unit_draw (u_price d) \<and> unit_draw (u_yield d) \<and>
     unit_draw (u_counterparty d) \<and> unit_draw (u_exec_status d)"

fun and_then :: "error + 'a \<Rightarrow> ('a \<Rightarrow> error + 'b) \<Rightarrow> error + 'b" where
  "and_then (Inl e) f = Inl e"
| "and_then (Inr x) f = f x"

text \<open>
  The columns are computed in the order of the script; \<open>Notional\<close> reads the
  \<open>Quantity\<close> and \<open>Price\<close> just computed for the same row. An array read that throws
  ends the row.
\<close>

definition synthesize :: "jlong \<Rightarrow> draws \<Rightarrow> error + execution" where
  "synthesize ii d =
     and_then (symbol ii) (\<lambda>sy.
     and_then (cusip ii) (\<lambda>cu.
     let q = quantity (u_quantity d);
         p = price (u_price d);
         y = yield (u_yield d);
         n = notional q p
     in
     and_then (venue ii) (\<lambda>ve.
     and_then (counterparty (u_counterparty d)) (\<lambda>cp.
     and_then (exec_status (u_exec_status d)) (\<lambda>st.
     and_then (trader ii) (\<lambda>tr.
     and_then (book ii) (\<lambda>bk.
     Inr \<lparr>ExecId = exec_id ii, OrderId = order_id ii, Symbol = sy, CUSIP = cu,
          Side = side ii, Quantity = q, Price = p, Yield = y, Notional = n, Venue = ve,
          Counterparty = cp, ExecStatus = st, Trader = tr, Book = bk\<rparr>)))))))"

subsection \<open>The distribution of one draw\<close>

text \<open>
  \<open>Math.random()\<close> returns one of the \<open>2 ^ 53\<close> doubles \<open>m / 2 ^ 53\<close> with
  \<open>0 \<le> m < 2 ^ 53\<close> (\<open>java.util.Random.nextDouble\<close> builds it from 53 random bits).
  The uniform source of the specification makes each of them as likely as any other, so
  the probability that a draw satisfies \<open>P\<close> is the share of these values that do.
\<close>

definition random_value :: "nat \<Rightarrow> rat" where
  "random_value m = of_nat m / 2 ^ 53"

definition prob :: "(rat \<Rightarrow> bool) \<Rightarrow> rat" where
  "prob P = of_nat (card {m. m < 2 ^ 53 \<and> P (random_value m)}) / 2 ^ 53"

subsection \<open>The wording of the specification\<close>

text \<open>A number below 10000 ``zero-padded to 4 digits'': its four decimal digits.\<close>

definition zero_padded4 :: "nat \<Rightarrow> string" where
  "zero_padded4 n =
     [digit_char (n div 1000 mod 10), digit_char (n div 100 mod 10),
      digit_char (n div 10 mod 10), digit_char (n mod 10)]"

subsection \<open>A sample row\<close>

text \<open>Row 12 with five particular draws, and the record the table holds for it.\<close>

abbreviation sample_draws :: draws where
  "sample_draws \<equiv>
     \<lparr>u_quantity = 255 / 256, u_price = 1 / 2, u_yield = 1 / 4, u_counterparty = 0,
      u_exec_status = 3 / 4\<rparr>"

abbreviation sample_row :: execution where
  "sample_row \<equiv>
     \<lparr>ExecId = ''EXE-000012'', OrderId = ''ORD-0012'', Symbol = ''UST 2Y'',
      CUSIP = ''91282CJL6'', Side = ''BUY'', Quantity = 51000000, Price = 1609 / 16,
      Yield = 4, Notional = 51286875, Venue = ''ECN'', Counterparty = ''GS'',
      ExecStatus = ''PARTIAL'', Trader = ''JSMITH'', Book = ''RATES-NY''\<rparr>"

section \<open>Auxiliary facts\<close>

subsection \<open>Remainders and casts\<close>

lemma smod_nonneg: "0 \<le> a \<Longrightarrow> 0 < b \<Longrightarrow> (a::int) smod b = a mod b"
  by (simp add: signed_modulo_int_def sgn_if)

lemma cast_small: 
  assumes "0 \<le> k" "k < 2 ^ 31"
  shows "sint (int_cast (word_of_int k)) = k"
proof -
  have "k < 2 ^ 64" using assms(2) by simp
  then have u: "uint (word_of_int k :: jlong) = k"
    using assms(1) by (simp add: uint_word_of_int_eq take_bit_int_eq_self)
  have "int_cast (word_of_int k) = (word_of_int k :: jint)"
    unfolding int_cast_def by (simp add: ucast_eq u)
  then show ?thesis
    using assms by (simp add: sint_sbintrunc' signed_take_bit_int_eq_self)
qed

lemma idx_nonneg:
  assumes "0 \<le> sint ii" "0 < n" "n < 2 ^ 31" "sint (c :: jlong) = n"
  shows "sint (int_cast (long_rem ii c)) = sint ii mod n"
proof -
  let ?k = "sint ii mod n"
  have k: "0 \<le> ?k" "?k < n" using assms by simp_all
  have "long_rem ii c = word_of_int ?k"
    using assms by (simp add: long_rem_def smod_nonneg)
  then show ?thesis using cast_small [of ?k] k assms(3) by simp
qed

lemma long_rem_2_zero: "long_rem ii 2 = 0 \<longleftrightarrow> even (sint ii)"
proof (cases "even (sint ii)")
  case True
  then have "\<bar>sint ii\<bar> mod 2 = 0" by presburger
  then show ?thesis using True by (simp add: long_rem_def signed_modulo_int_def)
next
  case False
  then have m: "\<bar>sint ii\<bar> mod 2 = 1" by presburger
  have s: "sgn (sint ii) = 1 \<or> sgn (sint ii) = -1" using False by (auto simp: sgn_if)
  have "(word_of_int (sgn (sint ii)) :: jlong) \<noteq> 0"
    using s by auto
  then show ?thesis using False m by (simp add: long_rem_def signed_modulo_int_def)
qed

subsection \<open>Formatting\<close>

lemma digit_char_0: "digit_char 0 = CHR ''0''"
  by code_simp

lemma dec_digits_small: "n < 10 \<Longrightarrow> dec_digits n = [digit_char n]"
  by (subst dec_digits.simps) simp

lemma dec_digits_large: "10 \<le> n \<Longrightarrow> dec_digits n = dec_digits (n div 10) @ [digit_char (n mod 10)]"
  by (subst dec_digits.simps) simp

lemma replicate_zeros:
  "replicate 3 c = [c, c, c]" "replicate 2 c = [c, c]"
  by (simp_all add: numeral_3_eq_3 numeral_2_eq_2)

lemma format_d_4:
  assumes "n < 10000"
  shows "format_d 4 (int n) = zero_padded4 n"
proof -
  let ?d = digit_char
  consider "n < 10" | "10 \<le> n" "n < 100" | "100 \<le> n" "n < 1000" | "1000 \<le> n"
    by linarith
  then show ?thesis
  proof cases
    case 1
    then have "dec_digits n = [?d n]" by (rule dec_digits_small)
    moreover have "n div 1000 = 0" "n div 100 = 0" "n div 10 = 0" "n mod 10 = n" using 1 by simp_all
    ultimately show ?thesis
      by (simp add: format_d_def zero_padded4_def digit_char_0 replicate_zeros)
  next
    case 2
    then have "dec_digits n = [?d (n div 10), ?d (n mod 10)]"
      by (simp add: dec_digits_large [of n] dec_digits_small [of "n div 10"])
    moreover have "n div 1000 = 0" "n div 100 = 0" "n div 10 mod 10 = n div 10" using 2 by simp_all
    ultimately show ?thesis
      by (simp add: format_d_def zero_padded4_def digit_char_0 replicate_zeros)
  next
    case 3
    have e: "n div 10 div 10 = n div 100" by (simp add: div_mult2_eq[symmetric])
    have "dec_digits n = [?d (n div 100), ?d (n div 10 mod 10), ?d (n mod 10)]"
      using 3 by (simp add: dec_digits_large [of n] dec_digits_large [of "n div 10"]
         dec_digits_small [of "n div 100"] e)
    moreover have "n div 1000 = 0" "n div 100 mod 10 = n div 100" using 3 by simp_all
    ultimately show ?thesis
      by (simp add: format_d_def zero_padded4_def digit_char_0 replicate_zeros)
  next
    case 4
    have e: "n div 10 div 10 = n div 100" "n div 100 div 10 = n div 1000"
      by (simp_all add: div_mult2_eq[symmetric])
    have "dec_digits n = [?d (n div 1000), ?d (n div 100 mod 10), ?d (n div 10 mod 10), ?d (n mod 10)]"
      using 4 assms by (simp add: dec_digits_large [of n] dec_digits_large [of "n div 10"]
         dec_digits_large [of "n div 100"] dec_digits_small [of "n div 1000"] e)
    moreover have "n div 1000 mod 10 = n div 1000" using assms by simp
    ultimately show ?thesis
      by (simp add: format_d_def zero_padded4_def)
  qed
qed

subsection \<open>Rounding to a double\<close>

lemma pow2_powi: "pow2 e = 2 powi e"
  by (simp add: pow2_def power_int_def field_simps)

lemma pow2_pos [simp]: "0 < pow2 e"
  by (simp add: pow2_powi zero_less_power_int)

lemma pow2_add: "pow2 (a + b) = pow2 a * pow2 b"
  by (simp add: pow2_powi power_int_add)

lemma pow2_diff: "pow2 (a - b) = pow2 a / pow2 b"
  by (simp add: pow2_powi power_int_diff)

lemma pow2_less_iff: "pow2 a < pow2 b \<longleftrightarrow> a < b"
proof
  assume "a < b"
  then show "pow2 a < pow2 b" by (simp add: pow2_powi power_int_strict_increasing)
next
  assume l: "pow2 a < pow2 b"
  show "a < b"
  proof (rule ccontr)
    assume "\<not> a < b"
    then have "b \<le> a" by simp
    then have "pow2 b \<le> pow2 a" by (simp add: pow2_powi power_int_increasing)
    with l show False by simp
  qed
qed

lemma pow2_le_iff: "pow2 a \<le> pow2 b \<longleftrightarrow> a \<le> b"
  using pow2_less_iff [of b a] by (auto simp: not_less [symmetric])

lemma pow2_nat: "0 \<le> e \<Longrightarrow> pow2 e = of_int (2 ^ nat e)"
  by (simp add: pow2_def)

lemma pow2_0 [simp]: "pow2 0 = 1"
  by (simp add: pow2_def)

lemma pow2_1 [simp]: "pow2 1 = 2"
  by (simp add: pow2_def)

lemma pow2_2 [simp]: "pow2 2 = 4"
  by (simp add: pow2_def)

lemma pow2_m1 [simp]: "pow2 (- 1) = 1 / 2"
  by (simp add: pow2_def)

lemma ilog2_up_bounds:
  "1 \<le> x \<Longrightarrow> pow2 (ilog2_up x) \<le> x \<and> x < pow2 (ilog2_up x + 1)"
proof (induction x rule: ilog2_up.induct)
  case (1 x)
  show ?case
  proof (cases "x < 2")
    case True
    then have "ilog2_up x = 0" by (subst ilog2_up.simps) simp
    with True "1.prems" show ?thesis by simp
  next
    case False
    then have e: "ilog2_up x = ilog2_up (x / 2) + 1" by (subst ilog2_up.simps) simp
    from False have "1 \<le> x / 2" by simp
    with "1.IH" False have "pow2 (ilog2_up (x / 2)) \<le> x / 2 \<and> x / 2 < pow2 (ilog2_up (x / 2) + 1)"
      by blast
    then show ?thesis unfolding e by (simp add: pow2_add)
  qed
qed

lemma ilog2_down_bounds:
  "0 < x \<Longrightarrow> x < 1 \<Longrightarrow> pow2 (ilog2_down x) \<le> x \<and> x < pow2 (ilog2_down x + 1)"
proof (induction x rule: ilog2_down.induct)
  case (1 x)
  then have e: "ilog2_down x = ilog2_down (2 * x) - 1" by (subst ilog2_down.simps) simp
  show ?case
  proof (cases "1 \<le> 2 * x")
    case True
    then have "ilog2_down (2 * x) = 0" by (subst ilog2_down.simps) simp
    with True "1.prems" show ?thesis unfolding e by simp
  next
    case False
    with "1.IH" "1.prems"
    have "pow2 (ilog2_down (2 * x)) \<le> 2 * x \<and> 2 * x < pow2 (ilog2_down (2 * x) + 1)"
      by simp
    then show ?thesis unfolding e by (simp add: pow2_add pow2_diff)
  qed
qed

lemma exponent_bounds:
  assumes "0 < x"
  shows "pow2 (exponent x) \<le> x" and "x < pow2 (exponent x + 1)"
  using assms ilog2_up_bounds [of x] ilog2_down_bounds [of x]
  by (auto simp: exponent_def)

lemma exponent_mono:
  assumes "0 < x" "x \<le> y"
  shows "exponent x \<le> exponent y"
proof -
  have "pow2 (exponent x) \<le> x" using assms by (simp add: exponent_bounds)
  also have "x \<le> y" by fact
  also have "y < pow2 (exponent y + 1)" using assms by (simp add: exponent_bounds)
  finally show ?thesis by (simp add: pow2_less_iff)
qed

lemma exponent_eqI:
  assumes "pow2 e \<le> x" "x < pow2 (e + 1)"
  shows "exponent x = e"
proof -
  have x: "0 < x" using assms(1) pow2_pos [of e] by linarith
  have "pow2 e < pow2 (exponent x + 1)"
    using assms(1) exponent_bounds(2) [OF x] by linarith
  moreover have "pow2 (exponent x) < pow2 (e + 1)"
    using assms(2) exponent_bounds(1) [OF x] by linarith
  ultimately show ?thesis by (simp add: pow2_less_iff)
qed

lemma round_half_even_floor: "\<lfloor>q\<rfloor> \<le> round_half_even q"
  by (simp add: round_half_even_def Let_def)

lemma round_half_even_ceil: "round_half_even q \<le> \<lfloor>q\<rfloor> + 1"
  by (simp add: round_half_even_def Let_def)

lemma round_half_even_of_int [simp]: "round_half_even (of_int n) = n"
  by (simp add: round_half_even_def)

lemma round_half_even_mono:
  assumes "q \<le> q'"
  shows "round_half_even q \<le> round_half_even q'"
proof -
  have "\<lfloor>q\<rfloor> \<le> \<lfloor>q'\<rfloor>" using assms by (rule floor_mono)
  then consider "\<lfloor>q\<rfloor> < \<lfloor>q'\<rfloor>" | "\<lfloor>q\<rfloor> = \<lfloor>q'\<rfloor>" by linarith
  then show ?thesis
  proof cases
    case 1
    then show ?thesis
      using round_half_even_ceil [of q] round_half_even_floor [of q'] by linarith
  next
    case 2
    then show ?thesis using assms by (auto simp: round_half_even_def Let_def)
  qed
qed

lemma round_half_even_le: "q \<le> of_int n \<Longrightarrow> round_half_even q \<le> n"
  using round_half_even_mono [of q "of_int n"] by simp

lemma round_half_even_ge: "of_int n \<le> q \<Longrightarrow> n \<le> round_half_even q"
  using round_half_even_mono [of "of_int n" q] by simp


lemma fl_0 [simp]: "fl 0 = 0"
  by (simp add: fl_def)

lemma fl_pos:
  "0 < x \<Longrightarrow>
   fl x = of_int (round_half_even (x / pow2 (exponent x - 52))) * pow2 (exponent x - 52)"
  by (simp add: fl_def Let_def)

lemma pow2_52: "pow2 52 = 2 ^ 52"
  by (simp add: pow2_def)

lemma pow2_53: "pow2 53 = 2 ^ 53"
  by (simp add: pow2_def)

lemma ulp_52: "pow2 e = 2 ^ 52 * pow2 (e - 52)"
  using pow2_add [of 52 "e - 52"] by (simp add: pow2_52)

lemma ulp_53: "pow2 (e + 1) = 2 ^ 53 * pow2 (e - 52)"
  using pow2_add [of 53 "e - 52"] by (simp add: pow2_53 add.commute)

lemma fl_lower:
  assumes "0 < x"
  shows "pow2 (exponent x) \<le> fl x"
proof -
  let ?u = "pow2 (exponent x - 52)"
  have "2 ^ 52 * ?u \<le> x"
    using exponent_bounds(1) [OF assms] ulp_52 [of "exponent x"] by simp
  then have "of_int (2 ^ 52) \<le> x / ?u"
    by (simp add: pos_le_divide_eq)
  then have "2 ^ 52 \<le> round_half_even (x / ?u)"
    by (rule round_half_even_ge)
  then have "(of_int (2 ^ 52) :: rat) \<le> of_int (round_half_even (x / ?u))"
    by (simp only: of_int_le_iff)
  then have "of_int (2 ^ 52) * ?u \<le> of_int (round_half_even (x / ?u)) * ?u"
    by (rule mult_right_mono) (simp add: less_imp_le)
  then show ?thesis
    using ulp_52 [of "exponent x"] by (simp add: fl_pos [OF assms])
qed

lemma fl_upper:
  assumes "0 < x"
  shows "fl x \<le> pow2 (exponent x + 1)"
proof -
  let ?u = "pow2 (exponent x - 52)"
  have "x \<le> 2 ^ 53 * ?u"
    using exponent_bounds(2) [OF assms] ulp_53 [of "exponent x"] by simp
  then have "x / ?u \<le> of_int (2 ^ 53)"
    by (simp add: pos_divide_le_eq)
  then have "round_half_even (x / ?u) \<le> 2 ^ 53"
    by (rule round_half_even_le)
  then have "(of_int (round_half_even (x / ?u)) :: rat) \<le> of_int (2 ^ 53)"
    by (simp only: of_int_le_iff)
  then have "of_int (round_half_even (x / ?u)) * ?u \<le> of_int (2 ^ 53) * ?u"
    by (rule mult_right_mono) (simp add: less_imp_le)
  then show ?thesis
    using ulp_53 [of "exponent x"] by (simp add: fl_pos [OF assms])
qed

lemma fl_mono_pos:
  assumes "0 < x" "x \<le> y"
  shows "fl x \<le> fl y"
proof -
  have y: "0 < y" using assms by linarith
  have "exponent x \<le> exponent y" using assms by (rule exponent_mono)
  then consider "exponent x + 1 \<le> exponent y" | "exponent x = exponent y" by linarith
  then show ?thesis
  proof cases
    case 1
    have "fl x \<le> pow2 (exponent x + 1)" using assms(1) by (rule fl_upper)
    also have "\<dots> \<le> pow2 (exponent y)" using 1 by (simp add: pow2_le_iff)
    also have "\<dots> \<le> fl y" using y by (rule fl_lower)
    finally show ?thesis .
  next
    case 2
    let ?u = "pow2 (exponent y - 52)"
    have "x / ?u \<le> y / ?u" using assms(2) by (rule divide_right_mono) (simp add: less_imp_le)
    then have "round_half_even (x / ?u) \<le> round_half_even (y / ?u)"
      by (rule round_half_even_mono)
    then have "(of_int (round_half_even (x / ?u)) :: rat) \<le> of_int (round_half_even (y / ?u))"
      by (simp only: of_int_le_iff)
    then have "of_int (round_half_even (x / ?u)) * ?u \<le> of_int (round_half_even (y / ?u)) * ?u"
      by (rule mult_right_mono) (simp add: less_imp_le)
    then show ?thesis by (simp add: fl_pos [OF assms(1)] fl_pos [OF y] 2)
  qed
qed

lemma fl_nonneg:
  assumes "0 \<le> x"
  shows "0 \<le> fl x"
proof (cases "x = 0")
  case True
  then show ?thesis by simp
next
  case False
  then have x: "0 < x" using assms by simp
  have "0 < pow2 (exponent x)" by simp
  also have "\<dots> \<le> fl x" using x by (rule fl_lower)
  finally show ?thesis by simp
qed

lemma fl_mono:
  assumes "0 \<le> x" "x \<le> y"
  shows "fl x \<le> fl y"
proof (cases "x = 0")
  case True
  then show ?thesis using assms fl_nonneg [of y] by simp
next
  case False
  then show ?thesis using assms by (intro fl_mono_pos) simp_all
qed

text \<open>A number with a significand of at most 53 bits is a double: rounding keeps it.\<close>

lemma fl_exact:
  assumes "0 \<le> m" "m < 2 ^ 53"
  shows "fl (of_int m * pow2 k) = of_int m * pow2 k"
proof (cases "m = 0")
  case True
  then show ?thesis by simp
next
  case False
  let ?c = "of_int m * pow2 k"
  let ?e = "exponent ?c"
  have m: "0 < m" using assms False by simp
  then have c: "0 < ?c" by simp
  have "?c < of_int (2 ^ 53) * pow2 k"
    using assms(2) by (intro mult_strict_right_mono) (simp_all del: of_int_power)
  also have "\<dots> = pow2 (53 + k)" using pow2_add [of 53 k] by (simp add: pow2_53)
  finally have "pow2 ?e < pow2 (53 + k)" using exponent_bounds(1) [OF c] by linarith
  then have j: "0 \<le> k - (?e - 52)" by (simp add: pow2_less_iff)
  have "?c / pow2 (?e - 52) = of_int m * pow2 (k - (?e - 52))"
    by (simp add: pow2_diff)
  also have "\<dots> = of_int (m * 2 ^ nat (k - (?e - 52)))"
    using j by (simp add: pow2_nat)
  finally have "round_half_even (?c / pow2 (?e - 52)) = m * 2 ^ nat (k - (?e - 52))"
    by (simp only: round_half_even_of_int)
  then have "fl ?c = of_int (m * 2 ^ nat (k - (?e - 52))) * pow2 (?e - 52)"
    by (simp add: fl_pos [OF c])
  also have "\<dots> = of_int m * (pow2 (k - (?e - 52)) * pow2 (?e - 52))"
    using j by (simp add: pow2_nat)
  also have "pow2 (k - (?e - 52)) * pow2 (?e - 52) = pow2 k"
    using pow2_add [of "k - (?e - 52)" "?e - 52"] by simp
  finally show ?thesis .
qed

lemma fl_of_int:
  assumes "0 \<le> m" "m < 2 ^ 53"
  shows "fl (of_int m) = of_int m"
  using fl_exact [OF assms, of 0] by simp


subsection \<open>From a double to an index\<close>

lemma array_get_Inr:
  "0 \<le> sint i \<Longrightarrow> sint i < int (length xs) \<Longrightarrow> array_get xs i = Inr (xs ! nat (sint i))"
  by (simp add: array_get_def in_bounds_def)

lemma sint_long_small:
  assumes "0 \<le> k" "k < 2 ^ 63"
  shows "sint (word_of_int k :: jlong) = k"
  using assms by (simp add: sint_sbintrunc' signed_take_bit_int_eq_self)

lemma unit_draw_scaled:
  assumes "unit_draw u" "0 \<le> n" "n < 2 ^ 53"
  shows "0 \<le> dmul u (of_int n)" "dmul u (of_int n) \<le> of_int n"
proof -
  have u: "0 \<le> u" "u < 1" using assms(1) by (simp_all add: unit_draw_def)
  have n: "(0::rat) \<le> of_int n" using assms(2) by simp
  have "0 \<le> u * of_int n" using u n by simp
  then show "0 \<le> dmul u (of_int n)" by (simp add: dmul_def fl_nonneg)
  have "u * of_int n \<le> 1 * of_int n" using u n by (intro mult_right_mono) simp_all
  then have "fl (u * of_int n) \<le> fl (of_int n)"
    using \<open>0 \<le> u * of_int n\<close> by (intro fl_mono) simp_all
  then show "dmul u (of_int n) \<le> of_int n"
    using assms by (simp add: dmul_def fl_of_int)
qed

lemma clamp_small:
  "0 \<le> k \<Longrightarrow> k < 2147483648 \<Longrightarrow> max (- (2 ^ 63)) (min (2 ^ 63 - 1) k) = (k::int)"
  by simp

text \<open>Rounding a small non-negative double to a \<open>long\<close> does not reach the clamp.\<close>

lemma java_round_small:
  assumes "0 \<le> x" "x \<le> of_int n" "n < 2 ^ 31"
  shows "java_round x = word_of_int \<lfloor>x + 1 / 2\<rfloor>"
    and "0 \<le> \<lfloor>x + 1 / 2\<rfloor>" and "\<lfloor>x + 1 / 2\<rfloor> \<le> n"
proof -
  define k where "k = \<lfloor>x + 1 / 2\<rfloor>"
  have "of_int 0 \<le> x + 1 / 2" using assms(1) by simp
  then have lo: "0 \<le> k" unfolding k_def by (simp only: le_floor_iff)
  have "x + 1 / 2 < of_int (n + 1)" using assms(2) by simp
  then have "k < n + 1" unfolding k_def by (simp only: floor_less_iff)
  then have hi: "k \<le> n" by simp
  have n: "n < 2147483648" using assms(3) by simp
  have "k < 2147483648" using hi n by linarith
  then have "max (- (2 ^ 63)) (min (2 ^ 63 - 1) k) = k" using lo by (intro clamp_small)
  then show "java_round x = word_of_int \<lfloor>x + 1 / 2\<rfloor>"
    unfolding java_round_def k_def by (rule arg_cong)
  show "0 \<le> \<lfloor>x + 1 / 2\<rfloor>" "\<lfloor>x + 1 / 2\<rfloor> \<le> n" using lo hi unfolding k_def .
qed

lemma round_index:
  assumes "unit_draw u" "0 \<le> n" "n < 2 ^ 31"
  shows "sint (int_cast (java_round (dmul u (of_int n)))) = \<lfloor>dmul u (of_int n) + 1 / 2\<rfloor>"
    and "0 \<le> \<lfloor>dmul u (of_int n) + 1 / 2\<rfloor>" and "\<lfloor>dmul u (of_int n) + 1 / 2\<rfloor> \<le> n"
proof -
  define k where "k = \<lfloor>dmul u (of_int n) + 1 / 2\<rfloor>"
  have n: "n < 2 ^ 53" using assms(3) by simp
  have x: "0 \<le> dmul u (of_int n)" "dmul u (of_int n) \<le> of_int n"
    using unit_draw_scaled [OF assms(1,2) n] by simp_all
  note r = java_round_small [OF x assms(3), folded k_def]
  have "k < 2 ^ 31" using r(3) assms(3) by linarith
  then have "sint (int_cast (word_of_int k)) = k" using r(2) by (intro cast_small)
  then show "sint (int_cast (java_round (dmul u (of_int n)))) = \<lfloor>dmul u (of_int n) + 1 / 2\<rfloor>"
    using r(1) by (simp add: k_def)
  show "0 \<le> \<lfloor>dmul u (of_int n) + 1 / 2\<rfloor>" "\<lfloor>dmul u (of_int n) + 1 / 2\<rfloor> \<le> n"
    using r(2,3) unfolding k_def .
qed

lemma counterparty_total:
  assumes "unit_draw u"
  shows "counterparty u = Inr (counterparties ! nat \<lfloor>dmul u 7 + 1 / 2\<rfloor>)"
    and "\<lfloor>dmul u 7 + 1 / 2\<rfloor> \<in> {0..7}"
  using round_index [OF assms, of 7]
  by (simp_all add: counterparty_def array_get_def in_bounds_def counterparties_def)

lemma exec_status_total:
  assumes "unit_draw u"
  shows "exec_status u = Inr (exec_statuses ! nat \<lfloor>dmul u 4 + 1 / 2\<rfloor>)"
    and "\<lfloor>dmul u 4 + 1 / 2\<rfloor> \<in> {0..4}"
  using round_index [OF assms, of 4]
  by (simp_all add: exec_status_def array_get_def in_bounds_def exec_statuses_def)

subsection \<open>The tables read at a remainder of the row index\<close>

lemma mod_lookup:
  assumes "0 \<le> sint ii" "0 < n" "n < 2 ^ 31" "sint (c :: jlong) = n" "int (length xs) = n"
  shows "array_get xs (int_cast (long_rem ii c)) = Inr (xs ! nat (sint ii mod n))"
proof -
  have "sint (int_cast (long_rem ii c)) = sint ii mod n"
    using assms(1-4) by (rule idx_nonneg)
  moreover have "0 \<le> sint ii mod n" "sint ii mod n < n" using assms(2) by simp_all
  ultimately show ?thesis using assms(5) by (simp add: array_get_def in_bounds_def)
qed

lemma symbol_total: "0 \<le> sint ii \<Longrightarrow> symbol ii = Inr (symbols ! nat (sint ii mod 6))"
  unfolding symbol_def by (rule mod_lookup) (simp_all add: symbols_def)

lemma cusip_total: "0 \<le> sint ii \<Longrightarrow> cusip ii = Inr (cusips ! nat (sint ii mod 6))"
  unfolding cusip_def by (rule mod_lookup) (simp_all add: cusips_def)

lemma venue_total: "0 \<le> sint ii \<Longrightarrow> venue ii = Inr (venues ! nat (sint ii mod 5))"
  unfolding venue_def by (rule mod_lookup) (simp_all add: venues_def)

lemma trader_total: "0 \<le> sint ii \<Longrightarrow> trader ii = Inr (traders ! nat (sint ii mod 4))"
  unfolding trader_def by (rule mod_lookup) (simp_all add: traders_def)

lemma book_total: "0 \<le> sint ii \<Longrightarrow> book ii = Inr (books ! nat (sint ii mod 3))"
  unfolding book_def by (rule mod_lookup) (simp_all add: books_def)

subsection \<open>Rows\<close>

lemma and_then_Inr: "and_then r f = Inr y \<longleftrightarrow> (\<exists>x. r = Inr x \<and> f x = Inr y)"
  by (cases r) simp_all

lemma synthesize_Inr:
  assumes "synthesize ii d = Inr row"
  shows "symbol ii = Inr (Symbol row)" "cusip ii = Inr (CUSIP row)"
    "venue ii = Inr (Venue row)" "trader ii = Inr (Trader row)" "book ii = Inr (Book row)"
    "counterparty (u_counterparty d) = Inr (Counterparty row)"
    "exec_status (u_exec_status d) = Inr (ExecStatus row)"
    "ExecId row = exec_id ii" "OrderId row = order_id ii" "Side row = side ii"
    "Quantity row = quantity (u_quantity d)" "Price row = price (u_price d)"
    "Yield row = yield (u_yield d)"
    "Notional row = notional (quantity (u_quantity d)) (price (u_price d))"
  using assms by (auto simp: synthesize_def and_then_Inr Let_def)

lemma synthesize_total:
  assumes "0 \<le> sint ii" "unit_draws d"
  shows "\<exists>row. synthesize ii d = Inr row"
proof -
  have "unit_draw (u_counterparty d)" "unit_draw (u_exec_status d)"
    using assms(2) by (simp_all add: unit_draws_def)
  then show ?thesis
    using assms(1)
    by (simp add: synthesize_def Let_def symbol_total cusip_total venue_total trader_total
        book_total counterparty_total(1) exec_status_total(1))
qed


subsection \<open>Quantity, Price and Notional\<close>

lemma pow2_m7: "pow2 (- 7) = 1 / 128"
  by (simp add: pow2_def)

lemma quantity_value:
  assumes "unit_draw u"
  shows "\<exists>k. 1 \<le> k \<and> k \<le> 51 \<and> sint (quantity u) = k * 1000000"
proof -
  define b where "b = dadd (dmul u 50) 1"
  define k where "k = \<lfloor>b + 1 / 2\<rfloor>"
  have a: "0 \<le> dmul u 50" "dmul u 50 \<le> 50"
    using unit_draw_scaled [OF assms, of 50] by simp_all
  have f: "fl 1 = 1" "fl 51 = 51"
    using fl_of_int [of 1] fl_of_int [of 51] by simp_all
  have "fl 1 \<le> fl (dmul u 50 + 1)" using a by (intro fl_mono) simp_all
  then have b1: "1 \<le> b" by (simp add: b_def dadd_def f)
  have "fl (dmul u 50 + 1) \<le> fl 51" using a by (intro fl_mono) simp_all
  then have b51: "b \<le> of_int 51" by (simp add: b_def dadd_def f)
  have b0: "0 \<le> b" using b1 by simp
  note r = java_round_small [OF b0 b51, folded k_def]
  have "of_int 1 \<le> b + 1 / 2" using b1 by simp
  then have k1: "1 \<le> k" unfolding k_def by (simp only: le_floor_iff)
  have k51: "k \<le> 51" using r(3) by simp
  have "java_round b * 1000000 = word_of_int (k * 1000000)"
    using r(1) by simp
  moreover have "0 \<le> k * 1000000" "k * 1000000 < 2 ^ 31" using k1 k51 by simp_all
  ultimately have "sint (quantity u) = k * 1000000"
    unfolding quantity_def b_def [symmetric] by (simp only: cast_small)
  then show ?thesis using k1 k51 by blast
qed

lemma price_value:
  assumes "unit_draw u"
  shows "\<exists>k. 0 \<le> k \<and> k \<le> 400 \<and> price u = 99 + of_int k / 128"
proof -
  define k where "k = \<lfloor>dmul u 400 + 1 / 2\<rfloor>"
  have x: "0 \<le> dmul u 400" "dmul u 400 \<le> of_int 400"
    using unit_draw_scaled [OF assms, of 400] by simp_all
  note r = java_round_small [OF x, folded k_def]
  have k: "0 \<le> k" "k \<le> 400" using r(2,3) by simp_all
  have "sint (java_round (dmul u 400)) = k"
    using r(1) k by (simp add: sint_long_small)
  then have "long_to_double (java_round (dmul u 400)) = of_int k"
    using k by (simp add: long_to_double_def fl_of_int)
  moreover have "fl (of_int k * pow2 (- 7)) = of_int k * pow2 (- 7)"
    using k by (intro fl_exact) simp_all
  ultimately have q: "ddiv (long_to_double (java_round (dmul u 400))) 128 = of_int k / 128"
    by (simp add: ddiv_def pow2_m7)
  have "fl (of_int (12672 + k) * pow2 (- 7)) = of_int (12672 + k) * pow2 (- 7)"
    using k by (intro fl_exact) simp_all
  moreover have "of_int (12672 + k) * pow2 (- 7) = 99 + rat_of_int k / 128"
    by (simp add: pow2_m7 field_simps)
  ultimately have "price u = 99 + of_int k / 128"
    by (simp add: price_def q dadd_def)
  then show ?thesis using k by blast
qed

lemma notional_value:
  assumes "unit_draw u" "unit_draw v"
  shows "notional (quantity u) (price v) = fl (of_int (sint (quantity u)) * price v / 100)"
proof -
  obtain kq where kq: "1 \<le> kq" "kq \<le> 51" "sint (quantity u) = kq * 1000000"
    using quantity_value [OF assms(1)] by blast
  obtain kp where kp: "0 \<le> kp" "kp \<le> 400" "price v = 99 + of_int kp / 128"
    using price_value [OF assms(2)] by blast
  define m where "m = kq * 1000000 * (12672 + kp)"
  have "kq * (12672 + kp) \<le> 51 * 13072" using kq kp by (intro mult_mono) simp_all
  then have m: "0 \<le> m" "m < 2 ^ 53" using kq kp by (simp_all add: m_def)
  have e: "of_int (sint (quantity u)) * price v = of_int m * pow2 (- 7)"
    by (simp add: kq kp m_def pow2_m7 field_simps)
  have "dmul (int_to_double (quantity u)) (price v) = fl (of_int (sint (quantity u)) * price v)"
    by (simp add: dmul_def int_to_double_def)
  also have "\<dots> = fl (of_int m * pow2 (- 7))" by (simp only: e)
  also have "\<dots> = of_int m * pow2 (- 7)" using m by (rule fl_exact)
  also have "\<dots> = of_int (sint (quantity u)) * price v" by (simp only: e)
  finally show ?thesis by (simp add: notional_def ddiv_def)
qed

subsection \<open>Probabilities\<close>

lemma finite_draws: "finite {m::nat. m < 2 ^ 53 \<and> Q m}"
  by simp

lemma prob_eq:
  assumes "\<And>m. m < 2 ^ 53 \<Longrightarrow> P (random_value m) \<longleftrightarrow> a \<le> m \<and> m < b"
    and "b \<le> 2 ^ 53"
  shows "prob P = of_nat (b - a) / 2 ^ 53"
proof -
  have "{m. m < 2 ^ 53 \<and> P (random_value m)} = {a..<b}"
    using assms by auto
  then show ?thesis by (simp add: prob_def)
qed

lemma prob_lower:
  assumes "\<And>m. a \<le> m \<Longrightarrow> m < b \<Longrightarrow> P (random_value m)"
    and "b \<le> 2 ^ 53"
  shows "of_nat (b - a) / 2 ^ 53 \<le> prob P"
proof -
  have "{a..<b} \<subseteq> {m. m < 2 ^ 53 \<and> P (random_value m)}"
    using assms by auto
  then have "card {a..<b} \<le> card {m. m < 2 ^ 53 \<and> P (random_value m)}"
    by (intro card_mono finite_draws)
  then show ?thesis by (simp add: prob_def divide_right_mono)
qed

lemma prob_upper:
  assumes "\<And>m. m < 2 ^ 53 \<Longrightarrow> P (random_value m) \<Longrightarrow> a \<le> m \<and> m < b"
  shows "prob P \<le> of_nat (b - a) / 2 ^ 53"
proof -
  have "{m. m < 2 ^ 53 \<and> P (random_value m)} \<subseteq> {a..<b}"
    using assms by auto
  then have "card {m. m < 2 ^ 53 \<and> P (random_value m)} \<le> card {a..<b}"
    by (intro card_mono) simp_all
  then show ?thesis by (simp add: prob_def divide_right_mono)
qed

subsection \<open>The distribution of ExecStatus\<close>

lemma grid_unit_draw: "m < 2 ^ 53 \<Longrightarrow> unit_draw (random_value m)"
  by (simp add: unit_draw_def random_value_def)

lemma pow2_m51: "pow2 (- 51) = 1 / 2 ^ 51"
  by (simp add: pow2_def)

lemma dmul_4_exact:
  assumes "m < 2 ^ 53"
  shows "dmul (random_value m) 4 = of_nat m / 2 ^ 51"
proof -
  have e: "random_value m * 4 = of_int (int m) * pow2 (- 51)"
    by (simp add: pow2_m51 random_value_def)
  have "dmul (random_value m) 4 = fl (random_value m * 4)" by (simp add: dmul_def)
  also have "\<dots> = fl (of_int (int m) * pow2 (- 51))" by (simp only: e)
  also have "\<dots> = of_int (int m) * pow2 (- 51)" using assms by (intro fl_exact) simp_all
  also have "\<dots> = of_nat m / 2 ^ 51" by (simp add: pow2_m51)
  finally show ?thesis .
qed

lemma exec_statuses_nth:
  assumes "k \<in> {0..4}"
  shows "exec_statuses ! nat k = ''FILLED'' \<longleftrightarrow> k < 3"
    and "exec_statuses ! nat k = ''PARTIAL'' \<longleftrightarrow> k = 3"
    and "exec_statuses ! nat k = ''REJECTED'' \<longleftrightarrow> k = 4"
proof -
  have "k = 0 \<or> k = 1 \<or> k = 2 \<or> k = 3 \<or> k = 4" using assms by auto
  then show "exec_statuses ! nat k = ''FILLED'' \<longleftrightarrow> k < 3"
    and "exec_statuses ! nat k = ''PARTIAL'' \<longleftrightarrow> k = 3"
    and "exec_statuses ! nat k = ''REJECTED'' \<longleftrightarrow> k = 4"
    by (auto simp: exec_statuses_def)
qed

lemma exec_status_grid:
  assumes "m < 2 ^ 53"
  shows "exec_status (random_value m) = Inr ''FILLED'' \<longleftrightarrow> m < 5 * 2 ^ 50"
    and "exec_status (random_value m) = Inr ''PARTIAL'' \<longleftrightarrow> 5 * 2 ^ 50 \<le> m \<and> m < 7 * 2 ^ 50"
    and "exec_status (random_value m) = Inr ''REJECTED'' \<longleftrightarrow> 7 * 2 ^ 50 \<le> m \<and> m < 2 ^ 53"
proof -
  let ?u = "random_value m"
  define k where "k = \<lfloor>dmul ?u 4 + 1 / 2\<rfloor>"
  have u: "unit_draw ?u" using assms by (rule grid_unit_draw)
  note t = exec_status_total [OF u, folded k_def]
  note n = exec_statuses_nth [OF t(2)]
  have x: "dmul ?u 4 + 1 / 2 = (of_nat m + 2 ^ 50) / 2 ^ 51"
    by (simp add: dmul_4_exact [OF assms] field_simps)
  have lt: "k < j \<longleftrightarrow> int m + 2 ^ 50 < j * 2 ^ 51" for j
  proof -
    have "k < j \<longleftrightarrow> (of_nat m + 2 ^ 50) / 2 ^ 51 < (of_int j :: rat)"
      unfolding k_def x by (rule floor_less_iff)
    also have "\<dots> \<longleftrightarrow> (of_int (int m + 2 ^ 50) :: rat) < of_int (j * 2 ^ 51)"
      by (simp add: field_simps)
    also have "\<dots> \<longleftrightarrow> int m + 2 ^ 50 < j * 2 ^ 51"
      by (simp only: of_int_less_iff)
    finally show ?thesis .
  qed
  have k3: "k < 3 \<longleftrightarrow> m < 5 * 2 ^ 50" using lt [of 3] by simp
  have k4: "k < 4 \<longleftrightarrow> m < 7 * 2 ^ 50" using lt [of 4] by simp
  have k5: "k < 5" using t(2) by simp
  show "exec_status ?u = Inr ''FILLED'' \<longleftrightarrow> m < 5 * 2 ^ 50"
    using n(1) k3 by (simp add: t(1))
  have "k = 3 \<longleftrightarrow> \<not> k < 3 \<and> k < 4" by linarith
  then show "exec_status ?u = Inr ''PARTIAL'' \<longleftrightarrow> 5 * 2 ^ 50 \<le> m \<and> m < 7 * 2 ^ 50"
    using n(2) k3 k4 by (simp add: t(1) not_less)
  have "k = 4 \<longleftrightarrow> \<not> k < 4" using k5 by linarith
  then show "exec_status ?u = Inr ''REJECTED'' \<longleftrightarrow> 7 * 2 ^ 50 \<le> m \<and> m < 2 ^ 53"
    using n(3) k4 assms by (simp add: t(1) not_less)
qed


lemma exec_status_probs:
  "prob (\<lambda>u. exec_status u = Inr ''FILLED'') = 5 / 8"
  "prob (\<lambda>u. exec_status u = Inr ''PARTIAL'') = 1 / 4"
  "prob (\<lambda>u. exec_status u = Inr ''REJECTED'') = 1 / 8"
proof -
  have "prob (\<lambda>u. exec_status u = Inr ''FILLED'') = of_nat (5 * 2 ^ 50 - 0) / 2 ^ 53"
    by (rule prob_eq) (simp_all add: exec_status_grid(1))
  then show "prob (\<lambda>u. exec_status u = Inr ''FILLED'') = 5 / 8" by simp
  have "prob (\<lambda>u. exec_status u = Inr ''PARTIAL'') = of_nat (7 * 2 ^ 50 - 5 * 2 ^ 50) / 2 ^ 53"
    by (rule prob_eq) (simp_all add: exec_status_grid(2))
  then show "prob (\<lambda>u. exec_status u = Inr ''PARTIAL'') = 1 / 4" by simp
  have "prob (\<lambda>u. exec_status u = Inr ''REJECTED'') = of_nat (2 ^ 53 - 7 * 2 ^ 50) / 2 ^ 53"
    by (rule prob_eq) (simp_all add: exec_status_grid(3))
  then show "prob (\<lambda>u. exec_status u = Inr ''REJECTED'') = 1 / 8" by simp
qed

subsection \<open>The distribution of Counterparty\<close>

lemma pow2_m50: "pow2 (- 50) = 1 / 2 ^ 50"
  by (simp add: pow2_def)

text \<open>Rounding after \<open>fl\<close>: a value at or above the half-way point \<open>j - 1/2\<close> rounds to at least \<open>j\<close>.\<close>

lemma round_ge:
  assumes "1 \<le> j" "j \<le> 8" "of_int (2 * j - 1) / 2 \<le> y"
  shows "j \<le> \<lfloor>fl y + 1 / 2\<rfloor>"
proof -
  define c where "c = rat_of_int (2 * j - 1) * pow2 (- 1)"
  have c: "fl c = c" unfolding c_def using assms(1,2) by (intro fl_exact) simp_all
  have "0 \<le> c" "c \<le> y" using assms by (simp_all add: c_def)
  then have "fl c \<le> fl y" by (rule fl_mono)
  then have "c \<le> fl y" by (simp only: c)
  moreover have "c = of_int j - 1 / 2" by (simp add: c_def field_simps)
  ultimately have "of_int j \<le> fl y + 1 / 2" by linarith
  then show ?thesis by (simp only: le_floor_iff)
qed

text \<open>A value at most the double just below \<open>j - 1/2\<close> rounds below \<open>j\<close>.\<close>

lemma round_lt:
  assumes "1 \<le> j" "j \<le> 8" "0 \<le> y" "y \<le> (of_int (2 * j - 1) * 2 ^ 49 - 1) / 2 ^ 50"
  shows "\<lfloor>fl y + 1 / 2\<rfloor> < j"
proof -
  define c where "c = rat_of_int ((2 * j - 1) * 2 ^ 49 - 1) * pow2 (- 50)"
  have c: "fl c = c" unfolding c_def using assms(1,2) by (intro fl_exact) simp_all
  have "y \<le> c" using assms(4) by (simp add: c_def pow2_m50)
  then have "fl y \<le> fl c" using assms(3) by (intro fl_mono)
  moreover have "c + 1 / 2 < of_int j" by (simp add: c_def pow2_m50 field_simps)
  ultimately have "fl y + 1 / 2 < of_int j" using c by linarith
  then show ?thesis by (simp only: floor_less_iff)
qed


lemma scaled_7:
  "random_value m * 7 = of_int (7 * int m) / 2 ^ 53" "0 \<le> random_value m * 7"
  by (simp_all add: random_value_def)

lemma half_point: "rat_of_int (2 * j - 1) / 2 = of_int ((2 * j - 1) * 2 ^ 52) / 2 ^ 53"
  by simp

lemma below_half_point:
  "(rat_of_int (2 * j - 1) * 2 ^ 49 - 1) / 2 ^ 50 = of_int ((2 * j - 1) * 2 ^ 52 - 8) / 2 ^ 53"
  by simp

lemma counterparty_index_lower:
  assumes "0 \<le> j" "j \<le> 7"
    and "(2 * j - 1) * 2 ^ 52 \<le> 7 * int m" "7 * int m \<le> (2 * j + 1) * 2 ^ 52 - 8"
  shows "\<lfloor>dmul (random_value m) 7 + 1 / 2\<rfloor> = j"
proof -
  let ?y = "random_value m * 7"
  have lo: "j \<le> \<lfloor>fl ?y + 1 / 2\<rfloor>"
  proof (cases "j = 0")
    case True
    have "of_int 0 \<le> fl ?y + 1 / 2" using fl_nonneg [OF scaled_7(2) [of m]] by simp
    then show ?thesis unfolding True by (simp only: le_floor_iff)
  next
    case False
    have "rat_of_int ((2 * j - 1) * 2 ^ 52) \<le> of_int (7 * int m)"
      using assms(3) by (simp only: of_int_le_iff)
    then have "rat_of_int (2 * j - 1) / 2 \<le> ?y"
      unfolding half_point scaled_7(1) by (rule divide_right_mono) simp
    then show ?thesis using False assms(1,2) by (intro round_ge) simp_all
  qed
  have "(2 * (j + 1) - 1) * 2 ^ 52 - 8 = (2 * j + 1) * 2 ^ 52 - 8" by simp
  then have "rat_of_int (7 * int m) \<le> of_int ((2 * (j + 1) - 1) * 2 ^ 52 - 8)"
    using assms(4) by (simp only: of_int_le_iff)
  then have "?y \<le> (rat_of_int (2 * (j + 1) - 1) * 2 ^ 49 - 1) / 2 ^ 50"
    unfolding below_half_point scaled_7(1) by (rule divide_right_mono) simp
  then have "\<lfloor>fl ?y + 1 / 2\<rfloor> < j + 1"
    using assms(1,2) scaled_7(2) [of m] by (intro round_lt) simp_all
  with lo show ?thesis by (simp add: dmul_def)
qed

lemma counterparty_index_upper:
  assumes "m < 2 ^ 53" "\<lfloor>dmul (random_value m) 7 + 1 / 2\<rfloor> = j"
  shows "(2 * j - 1) * 2 ^ 52 - 8 < 7 * int m" "7 * int m < (2 * j + 1) * 2 ^ 52"
proof -
  let ?y = "random_value m * 7"
  have k: "\<lfloor>fl ?y + 1 / 2\<rfloor> = j" using assms(2) by (simp add: dmul_def)
  have j: "0 \<le> j" "j \<le> 7"
    using counterparty_total(2) [OF grid_unit_draw [OF assms(1)]] assms(2) by simp_all
  show "(2 * j - 1) * 2 ^ 52 - 8 < 7 * int m"
  proof (rule ccontr)
    assume "\<not> (2 * j - 1) * 2 ^ 52 - 8 < 7 * int m"
    then have le: "7 * int m \<le> (2 * j - 1) * 2 ^ 52 - 8" by simp
    then have "1 \<le> j" using j(2) by (cases "j = 0") simp_all
    have "rat_of_int (7 * int m) \<le> of_int ((2 * j - 1) * 2 ^ 52 - 8)"
      using le by (simp only: of_int_le_iff)
    then have "?y \<le> (rat_of_int (2 * j - 1) * 2 ^ 49 - 1) / 2 ^ 50"
      unfolding below_half_point scaled_7(1) by (rule divide_right_mono) simp
    then have "\<lfloor>fl ?y + 1 / 2\<rfloor> < j"
      using \<open>1 \<le> j\<close> j(2) scaled_7(2) [of m] by (intro round_lt) simp_all
    with k show False by simp
  qed
  show "7 * int m < (2 * j + 1) * 2 ^ 52"
  proof (rule ccontr)
    assume "\<not> 7 * int m < (2 * j + 1) * 2 ^ 52"
    then have ge: "(2 * (j + 1) - 1) * 2 ^ 52 \<le> 7 * int m" by simp
    have "int m < 2 ^ 53" using assms(1) by simp
    then have "j \<noteq> 7" using ge by auto
    have "rat_of_int ((2 * (j + 1) - 1) * 2 ^ 52) \<le> of_int (7 * int m)"
      using ge by (simp only: of_int_le_iff)
    then have "rat_of_int (2 * (j + 1) - 1) / 2 \<le> ?y"
      unfolding half_point scaled_7(1) by (rule divide_right_mono) simp
    then have "j + 1 \<le> \<lfloor>fl ?y + 1 / 2\<rfloor>"
      using j \<open>j \<noteq> 7\<close> by (intro round_ge) simp_all
    with k show False by simp
  qed
qed


lemma counterparties_nth_eq:
  assumes "0 \<le> k" "k \<le> 7" "0 \<le> j" "j \<le> 7"
  shows "counterparties ! nat k = counterparties ! nat j \<longleftrightarrow> k = j"
proof -
  have "distinct counterparties" by (simp add: counterparties_def)
  moreover have "nat k < length counterparties" "nat j < length counterparties"
    using assms by (simp_all add: counterparties_def)
  ultimately have "counterparties ! nat k = counterparties ! nat j \<longleftrightarrow> nat k = nat j"
    by (rule nth_eq_iff_index_eq)
  then show ?thesis using assms by (simp add: eq_nat_nat_iff)
qed

lemma counterparty_grid_iff:
  assumes "m < 2 ^ 53" "0 \<le> j" "j \<le> 7"
  shows "counterparty (random_value m) = Inr (counterparties ! nat j) \<longleftrightarrow>
    \<lfloor>dmul (random_value m) 7 + 1 / 2\<rfloor> = j"
proof -
  note t = counterparty_total [OF grid_unit_draw [OF assms(1)]]
  have "0 \<le> \<lfloor>dmul (random_value m) 7 + 1 / 2\<rfloor>" "\<lfloor>dmul (random_value m) 7 + 1 / 2\<rfloor> \<le> 7"
    using t(2) by simp_all
  then show ?thesis
    unfolding t(1) using assms(2,3) by (simp only: sum.inject counterparties_nth_eq)
qed

lemma counterparty_prob_near:
  assumes "0 \<le> j" "j \<le> 7" "v = counterparties ! nat j"
    and "(2 * j - 1) * 2 ^ 52 \<le> 7 * int a" "7 * int b \<le> (2 * j + 1) * 2 ^ 52 - 1" "b \<le> 2 ^ 53"
    and "a' = 0 \<or> 7 * int a' \<le> (2 * j - 1) * 2 ^ 52 - 1"
    and "b' = 2 ^ 53 \<or> (2 * j + 1) * 2 ^ 52 \<le> 7 * int b'"
  shows "of_nat (b - a) / 2 ^ 53 \<le> prob (\<lambda>u. counterparty u = Inr v) \<and>
    prob (\<lambda>u. counterparty u = Inr v) \<le> of_nat (b' - a') / 2 ^ 53"
proof
  show "of_nat (b - a) / 2 ^ 53 \<le> prob (\<lambda>u. counterparty u = Inr v)"
  proof (rule prob_lower)
    fix m assume m: "a \<le> m" "m < b"
    then have "7 * int a \<le> 7 * int m" "7 * int m \<le> 7 * int b - 7" by simp_all
    then have "\<lfloor>dmul (random_value m) 7 + 1 / 2\<rfloor> = j"
      using assms(1,2,4,5) by (intro counterparty_index_lower) linarith+
    moreover have "m < 2 ^ 53" using m(2) assms(6) by linarith
    ultimately show "counterparty (random_value m) = Inr v"
      using assms(1,2) unfolding assms(3) by (simp only: counterparty_grid_iff)
  qed (fact assms(6))
  show "prob (\<lambda>u. counterparty u = Inr v) \<le> of_nat (b' - a') / 2 ^ 53"
  proof (rule prob_upper)
    fix m assume m: "m < 2 ^ 53" "counterparty (random_value m) = Inr v"
    then have "\<lfloor>dmul (random_value m) 7 + 1 / 2\<rfloor> = j"
      using assms(1,2) unfolding assms(3) by (simp only: counterparty_grid_iff)
    note u = counterparty_index_upper [OF m(1) this]
    have "a' \<le> m"
    proof (rule ccontr)
      assume "\<not> a' \<le> m"
      then have "7 * int m \<le> 7 * int a' - 7" "a' \<noteq> 0" by simp_all
      with assms(7) u(1) show False by linarith
    qed
    moreover have "m < b'"
    proof (rule ccontr)
      assume "\<not> m < b'"
      then have "7 * int b' \<le> 7 * int m" by simp
      moreover have "b' \<noteq> 2 ^ 53" using \<open>\<not> m < b'\<close> m(1) by auto
      ultimately show False using assms(8) u(2) by linarith
    qed
    ultimately show "a' \<le> m \<and> m < b'" ..
  qed
qed


subsection \<open>The sample row\<close>

lemma sample_synthesize: "synthesize 12 sample_draws = Inr sample_row"
  by code_simp

lemma sample_unit_draws: "unit_draws sample_draws"
  by (simp add: unit_draws_def unit_draw_def)

section \<open>The claims\<close>

text \<open>
  Every statement about ``a generated row'' is about a record \<open>row\<close> with
  \<open>synthesize ii d = Inr row\<close>, where \<open>d\<close> holds what \<open>Math.random()\<close> returned
  (\<open>unit_draws d\<close>) and, where the claim asks for it, \<open>ii\<close> is not negative.
\<close>

subsection \<open>Venue\<close>

text \<open>
  C1, as stated: \<open>Venue\<close> is a uniform random pick among the five values, drawn from the
  random source and not derived from the row index. The script indexes the table with
  \<open>ii % 5\<close> and never calls \<open>Math.random()\<close> for this column. So in row 0 the value
  \<open>D2D\<close>, which a uniform pick would return once in five draws, cannot come out
  whatever the random source returns, and the sample draws give \<open>D2C\<close>.
\<close>

theorem venue_random_pick_counterexample:
  "map_sum id Venue (synthesize 0 sample_draws) = Inr ''D2C'' \<and>
   \<not> (\<exists>d. unit_draws d \<and> map_sum id Venue (synthesize 0 d) = Inr ''D2D'')"
proof
  show "map_sum id Venue (synthesize 0 sample_draws) = Inr ''D2C''"
    by code_simp
  show "\<not> (\<exists>d. unit_draws d \<and> map_sum id Venue (synthesize 0 d) = Inr ''D2D'')"
  proof
    assume "\<exists>d. unit_draws d \<and> map_sum id Venue (synthesize 0 d) = Inr ''D2D''"
    then obtain d where d: "map_sum id Venue (synthesize 0 d) = Inr ''D2D''" by blast
    then obtain row where row: "synthesize 0 d = Inr row" "Venue row = ''D2D''"
      by (cases "synthesize 0 d") auto
    have "venue 0 = Inr (Venue row)" using row(1) by (rule synthesize_Inr)
    moreover have "venue 0 = Inr (venues ! nat (sint (0 :: jlong) mod 5))"
      by (rule venue_total) simp
    ultimately show False using row(2) by (simp add: venues_def)
  qed
qed

text \<open>
  C1, amended: for every generated row with \<open>ii \<ge> 0\<close>, \<open>Venue\<close> is the entry at index
  \<open>ii mod 5\<close> of the table \<open>D2C, D2D, ECN, RFQ, CLOB\<close>; it is a function of the row
  index alone and does not depend on the random source.
\<close>

theorem venue_by_row_index:
  assumes "synthesize ii d = Inr row" "0 \<le> sint ii"
  shows "Venue row = venues ! nat (sint ii mod 5)"
proof -
  have "venue ii = Inr (Venue row)" using assms(1) by (rule synthesize_Inr)
  then show ?thesis using venue_total [OF assms(2)] by simp
qed

theorem venue_by_row_index_witness:
  "synthesize 12 sample_draws = Inr sample_row \<and> 0 \<le> sint (12 :: jlong) \<and>
   Venue sample_row = venues ! nat (sint (12 :: jlong) mod 5)"
proof -
  have i: "0 \<le> sint (12 :: jlong)" by simp
  show ?thesis
    using venue_by_row_index [OF sample_synthesize i] sample_synthesize i by blast
qed

subsection \<open>ExecStatus\<close>

text \<open>
  C2, as stated: \<open>FILLED\<close> has probability 3/5, \<open>PARTIAL\<close> 1/5 and \<open>REJECTED\<close> 1/5.
  The index into the five-slot table is \<open>Math.round(u * 4)\<close>, so the first and the last
  slot are reached from an interval of \<open>u\<close> half as long as the three inner ones:
  \<open>FILLED\<close> does not have probability 3/5.
\<close>

theorem exec_status_weights_counterexample:
  "prob (\<lambda>u. exec_status u = Inr ''FILLED'') \<noteq> 3 / 5"
  by (simp add: exec_status_probs(1))

text \<open>
  C2, amended: \<open>ExecStatus\<close> is the entry at index \<open>round(u * 4)\<close> of the five-slot table
  in which \<open>FILLED\<close> occupies three slots, \<open>PARTIAL\<close> one and \<open>REJECTED\<close> one, for a
  uniform draw \<open>u\<close>; so \<open>FILLED\<close> has probability 5/8, \<open>PARTIAL\<close> 1/4 and \<open>REJECTED\<close>
  1/8.
\<close>

theorem exec_status_distribution:
  "prob (\<lambda>u. exec_status u = Inr ''FILLED'') = 5 / 8 \<and>
   prob (\<lambda>u. exec_status u = Inr ''PARTIAL'') = 1 / 4 \<and>
   prob (\<lambda>u. exec_status u = Inr ''REJECTED'') = 1 / 8"
  by (simp add: exec_status_probs)

subsection \<open>Counterparty\<close>

text \<open>
  C3, as stated: each of the eight values has probability 1/8. The index is
  \<open>Math.round(u * 7)\<close>: \<open>GS\<close> comes out only for \<open>u * 7 < 1/2\<close>, which is less than one
  draw in thirteen.
\<close>

theorem counterparty_uniform_counterexample:
  "prob (\<lambda>u. counterparty u = Inr ''GS'') \<noteq> 1 / 8"
proof -
  have "of_nat (643371375338642 - 0) / 2 ^ 53 \<le> prob (\<lambda>u. counterparty u = Inr ''GS'') \<and>
      prob (\<lambda>u. counterparty u = Inr ''GS'') \<le> of_nat (643371375338643 - 0) / 2 ^ 53"
    by (rule counterparty_prob_near [of 0]) (simp_all add: counterparties_def)
  then have "prob (\<lambda>u. counterparty u = Inr ''GS'') < 1 / 13" by simp
  then show ?thesis by simp
qed

text \<open>
  C3, amended: \<open>Counterparty\<close> is the entry at index \<open>round(u * 7)\<close> of the table of the
  eight values, for a uniform draw \<open>u\<close>. Every value can come out, but not equally often:
  \<open>GS\<close> and \<open>DB\<close>, the two ends of the table, have probability 1/14 each and each of the
  other six values has probability 1/7, up to \<open>2 ^ - 50\<close> (the multiplication by 7 rounds).
\<close>

theorem counterparty_distribution:
  "\<bar>prob (\<lambda>u. counterparty u = Inr ''GS'') - 1 / 14\<bar> < 1 / 2 ^ 50 \<and>
   \<bar>prob (\<lambda>u. counterparty u = Inr ''JPM'') - 1 / 7\<bar> < 1 / 2 ^ 50 \<and>
   \<bar>prob (\<lambda>u. counterparty u = Inr ''MS'') - 1 / 7\<bar> < 1 / 2 ^ 50 \<and>
   \<bar>prob (\<lambda>u. counterparty u = Inr ''BARC'') - 1 / 7\<bar> < 1 / 2 ^ 50 \<and>
   \<bar>prob (\<lambda>u. counterparty u = Inr ''CITI'') - 1 / 7\<bar> < 1 / 2 ^ 50 \<and>
   \<bar>prob (\<lambda>u. counterparty u = Inr ''BofA'') - 1 / 7\<bar> < 1 / 2 ^ 50 \<and>
   \<bar>prob (\<lambda>u. counterparty u = Inr ''HSBC'') - 1 / 7\<bar> < 1 / 2 ^ 50 \<and>
   \<bar>prob (\<lambda>u. counterparty u = Inr ''DB'') - 1 / 14\<bar> < 1 / 2 ^ 50"
proof -
  have "of_nat (643371375338642 - 0) / 2 ^ 53 \<le> prob (\<lambda>u. counterparty u = Inr ''GS'') \<and>
      prob (\<lambda>u. counterparty u = Inr ''GS'') \<le> of_nat (643371375338643 - 0) / 2 ^ 53"
    by (rule counterparty_prob_near [of 0]) (simp_all add: counterparties_def)
  then have p0: "\<bar>prob (\<lambda>u. counterparty u = Inr ''GS'') - 1 / 14\<bar> < 1 / 2 ^ 50"
    unfolding abs_less_iff by simp
  have "of_nat (1930114126015926 - 643371375338643) / 2 ^ 53 \<le> prob (\<lambda>u. counterparty u = Inr ''JPM'') \<and>
      prob (\<lambda>u. counterparty u = Inr ''JPM'') \<le> of_nat (1930114126015927 - 643371375338642) / 2 ^ 53"
    by (rule counterparty_prob_near [of 1]) (simp_all add: counterparties_def)
  then have p1: "\<bar>prob (\<lambda>u. counterparty u = Inr ''JPM'') - 1 / 7\<bar> < 1 / 2 ^ 50"
    unfolding abs_less_iff by simp
  have "of_nat (3216856876693211 - 1930114126015927) / 2 ^ 53 \<le> prob (\<lambda>u. counterparty u = Inr ''MS'') \<and>
      prob (\<lambda>u. counterparty u = Inr ''MS'') \<le> of_nat (3216856876693212 - 1930114126015926) / 2 ^ 53"
    by (rule counterparty_prob_near [of 2]) (simp_all add: counterparties_def)
  then have p2: "\<bar>prob (\<lambda>u. counterparty u = Inr ''MS'') - 1 / 7\<bar> < 1 / 2 ^ 50"
    unfolding abs_less_iff by simp
  have "of_nat (4503599627370495 - 3216856876693212) / 2 ^ 53 \<le> prob (\<lambda>u. counterparty u = Inr ''BARC'') \<and>
      prob (\<lambda>u. counterparty u = Inr ''BARC'') \<le> of_nat (4503599627370496 - 3216856876693211) / 2 ^ 53"
    by (rule counterparty_prob_near [of 3]) (simp_all add: counterparties_def)
  then have p3: "\<bar>prob (\<lambda>u. counterparty u = Inr ''BARC'') - 1 / 7\<bar> < 1 / 2 ^ 50"
    unfolding abs_less_iff by simp
  have "of_nat (5790342378047780 - 4503599627370496) / 2 ^ 53 \<le> prob (\<lambda>u. counterparty u = Inr ''CITI'') \<and>
      prob (\<lambda>u. counterparty u = Inr ''CITI'') \<le> of_nat (5790342378047781 - 4503599627370495) / 2 ^ 53"
    by (rule counterparty_prob_near [of 4]) (simp_all add: counterparties_def)
  then have p4: "\<bar>prob (\<lambda>u. counterparty u = Inr ''CITI'') - 1 / 7\<bar> < 1 / 2 ^ 50"
    unfolding abs_less_iff by simp
  have "of_nat (7077085128725065 - 5790342378047781) / 2 ^ 53 \<le> prob (\<lambda>u. counterparty u = Inr ''BofA'') \<and>
      prob (\<lambda>u. counterparty u = Inr ''BofA'') \<le> of_nat (7077085128725066 - 5790342378047780) / 2 ^ 53"
    by (rule counterparty_prob_near [of 5]) (simp_all add: counterparties_def)
  then have p5: "\<bar>prob (\<lambda>u. counterparty u = Inr ''BofA'') - 1 / 7\<bar> < 1 / 2 ^ 50"
    unfolding abs_less_iff by simp
  have "of_nat (8363827879402349 - 7077085128725066) / 2 ^ 53 \<le> prob (\<lambda>u. counterparty u = Inr ''HSBC'') \<and>
      prob (\<lambda>u. counterparty u = Inr ''HSBC'') \<le> of_nat (8363827879402350 - 7077085128725065) / 2 ^ 53"
    by (rule counterparty_prob_near [of 6]) (simp_all add: counterparties_def)
  then have p6: "\<bar>prob (\<lambda>u. counterparty u = Inr ''HSBC'') - 1 / 7\<bar> < 1 / 2 ^ 50"
    unfolding abs_less_iff by simp
  have "of_nat (9007199254740992 - 8363827879402350) / 2 ^ 53 \<le> prob (\<lambda>u. counterparty u = Inr ''DB'') \<and>
      prob (\<lambda>u. counterparty u = Inr ''DB'') \<le> of_nat (9007199254740992 - 8363827879402349) / 2 ^ 53"
    by (rule counterparty_prob_near [of 7]) (simp_all add: counterparties_def)
  then have p7: "\<bar>prob (\<lambda>u. counterparty u = Inr ''DB'') - 1 / 14\<bar> < 1 / 2 ^ 50"
    unfolding abs_less_iff by simp
  show ?thesis using p0 p1 p2 p3 p4 p5 p6 p7 by blast
qed

subsection \<open>Quantity\<close>

text \<open>
  C4, as stated: \<open>Quantity\<close> lies between 1,000,000 and 50,000,000. For a draw
  \<open>u \<ge> 0.99\<close> the sum \<open>u * 50 + 1\<close> is at least 50.5 and rounds to 51: the draw
  \<open>u = 255/256\<close> gives 51,000,000.
\<close>

theorem quantity_range_counterexample:
  "unit_draws sample_draws \<and>
   map_sum id (\<lambda>row. sint (Quantity row)) (synthesize 12 sample_draws) = Inr 51000000"
  by (simp add: sample_synthesize sample_unit_draws)

text \<open>
  C4, amended: for every generated row, \<open>Quantity\<close> is a positive integer multiple of
  1,000,000 in the range from 1,000,000 to 51,000,000.
\<close>

theorem quantity_range:
  assumes "synthesize ii d = Inr row" "unit_draws d"
  shows "\<exists>k. 1 \<le> k \<and> k \<le> 51 \<and> sint (Quantity row) = k * 1000000"
proof -
  have "unit_draw (u_quantity d)" using assms(2) by (simp add: unit_draws_def)
  then show ?thesis
    using quantity_value synthesize_Inr(11) [OF assms(1)] by simp
qed

theorem quantity_range_witness:
  "synthesize 12 sample_draws = Inr sample_row \<and> unit_draws sample_draws \<and>
   (\<exists>k. 1 \<le> k \<and> k \<le> 51 \<and> sint (Quantity sample_row) = k * 1000000)"
  using quantity_range [OF sample_synthesize sample_unit_draws] sample_synthesize
    sample_unit_draws
  by blast

subsection \<open>Notional\<close>

text \<open>
  C5. For every generated row, \<open>Notional\<close> is \<open>Quantity * Price / 100.0\<close> computed from
  the \<open>Quantity\<close> and the \<open>Price\<close> of that same row. The product is exact in double
  arithmetic, so \<open>Notional\<close> is the double nearest to the exact quotient.
\<close>

theorem notional_of_own_row:
  assumes "synthesize ii d = Inr row" "unit_draws d"
  shows "Notional row = ddiv (dmul (int_to_double (Quantity row)) (Price row)) 100 \<and>
    Notional row = fl (of_int (sint (Quantity row)) * Price row / 100)"
proof -
  note f = synthesize_Inr [OF assms(1)]
  have u: "unit_draw (u_quantity d)" "unit_draw (u_price d)"
    using assms(2) by (simp_all add: unit_draws_def)
  have "Notional row = notional (Quantity row) (Price row)"
    by (simp only: f(11,12,14))
  moreover have "notional (Quantity row) (Price row) =
      fl (of_int (sint (Quantity row)) * Price row / 100)"
    unfolding f(11,12) using u by (rule notional_value)
  ultimately show ?thesis by (simp add: notional_def)
qed

theorem notional_of_own_row_witness:
  "synthesize 12 sample_draws = Inr sample_row \<and> unit_draws sample_draws \<and>
   Notional sample_row = ddiv (dmul (int_to_double (Quantity sample_row)) (Price sample_row)) 100 \<and>
   Notional sample_row = fl (of_int (sint (Quantity sample_row)) * Price sample_row / 100)"
  using notional_of_own_row [OF sample_synthesize sample_unit_draws] sample_synthesize
    sample_unit_draws
  by blast

subsection \<open>Side\<close>

text \<open>
  C6. For every row index \<open>ii\<close>, \<open>Side\<close> is \<open>BUY\<close> exactly when \<open>ii\<close> is even, and
  \<open>SELL\<close> otherwise.
\<close>

theorem side_buy_iff_even:
  "(side ii = ''BUY'' \<longleftrightarrow> even (sint ii)) \<and> (side ii = ''SELL'' \<longleftrightarrow> odd (sint ii))"
  by (simp add: side_def long_rem_2_zero)

subsection \<open>Symbol and CUSIP\<close>

text \<open>
  C7. For every generated row with \<open>ii \<ge> 0\<close>, \<open>Symbol\<close> and \<open>CUSIP\<close> are the entries
  at the same index \<open>ii mod 6\<close> of their two six-element tables; for \<open>ii mod 6 = 0\<close>
  they are \<open>UST 2Y\<close> and \<open>91282CJL6\<close>.
\<close>

theorem symbol_cusip_same_index:
  assumes "synthesize ii d = Inr row" "0 \<le> sint ii"
  shows "Symbol row = symbols ! nat (sint ii mod 6) \<and>
    CUSIP row = cusips ! nat (sint ii mod 6) \<and>
    (sint ii mod 6 = 0 \<longrightarrow> Symbol row = ''UST 2Y'' \<and> CUSIP row = ''91282CJL6'')"
proof -
  note f = synthesize_Inr [OF assms(1)]
  have s: "Symbol row = symbols ! nat (sint ii mod 6)"
    using f(1) symbol_total [OF assms(2)] by simp
  have c: "CUSIP row = cusips ! nat (sint ii mod 6)"
    using f(2) cusip_total [OF assms(2)] by simp
  show ?thesis using s c by (simp add: symbols_def cusips_def)
qed

theorem symbol_cusip_same_index_witness:
  "synthesize 12 sample_draws = Inr sample_row \<and> 0 \<le> sint (12 :: jlong) \<and>
   sint (12 :: jlong) mod 6 = 0 \<and>
   Symbol sample_row = symbols ! nat (sint (12 :: jlong) mod 6) \<and>
   CUSIP sample_row = cusips ! nat (sint (12 :: jlong) mod 6) \<and>
   Symbol sample_row = ''UST 2Y'' \<and> CUSIP sample_row = ''91282CJL6''"
proof -
  have i: "0 \<le> sint (12 :: jlong)" by simp
  have z: "sint (12 :: jlong) mod 6 = 0" by simp
  show ?thesis
    using symbol_cusip_same_index [OF sample_synthesize i] sample_synthesize i z by blast
qed

subsection \<open>Array reads\<close>

text \<open>
  C8. For every row index \<open>ii \<ge> 0\<close> and all draws in \<open>[0, 1)\<close>, each of the seven array
  reads of a row has its index inside its table: the five indexed with a remainder of
  \<open>ii\<close> and the two indexed with \<open>round(u * 7)\<close> and \<open>round(u * 4)\<close>. So no read
  throws and the row is produced.
\<close>

theorem lookups_in_bounds:
  assumes "0 \<le> sint ii" "unit_draws d"
  shows "in_bounds symbols (int_cast (long_rem ii 6)) \<and>
    in_bounds cusips (int_cast (long_rem ii 6)) \<and>
    in_bounds venues (int_cast (long_rem ii 5)) \<and>
    in_bounds traders (int_cast (long_rem ii 4)) \<and>
    in_bounds books (int_cast (long_rem ii 3)) \<and>
    in_bounds counterparties (int_cast (java_round (dmul (u_counterparty d) 7))) \<and>
    in_bounds exec_statuses (int_cast (java_round (dmul (u_exec_status d) 4))) \<and>
    (\<exists>row. synthesize ii d = Inr row)"
proof -
  have u: "unit_draw (u_counterparty d)" "unit_draw (u_exec_status d)"
    using assms(2) by (simp_all add: unit_draws_def)
  have m: "in_bounds xs (int_cast (long_rem ii c))"
    if "sint c = int (length xs)" "0 < length xs" "int (length xs) < 2 ^ 31" for xs :: "string list" and c
  proof -
    have "sint (int_cast (long_rem ii c)) = sint ii mod int (length xs)"
      using assms(1) that by (intro idx_nonneg) simp_all
    then show ?thesis using that(2) by (simp add: in_bounds_def)
  qed
  have "in_bounds symbols (int_cast (long_rem ii 6))" by (rule m) (simp_all add: symbols_def)
  moreover have "in_bounds cusips (int_cast (long_rem ii 6))" by (rule m) (simp_all add: cusips_def)
  moreover have "in_bounds venues (int_cast (long_rem ii 5))" by (rule m) (simp_all add: venues_def)
  moreover have "in_bounds traders (int_cast (long_rem ii 4))" by (rule m) (simp_all add: traders_def)
  moreover have "in_bounds books (int_cast (long_rem ii 3))" by (rule m) (simp_all add: books_def)
  moreover have "in_bounds counterparties (int_cast (java_round (dmul (u_counterparty d) 7)))"
    using round_index [OF u(1), of 7] by (simp add: in_bounds_def counterparties_def)
  moreover have "in_bounds exec_statuses (int_cast (java_round (dmul (u_exec_status d) 4)))"
    using round_index [OF u(2), of 4] by (simp add: in_bounds_def exec_statuses_def)
  moreover have "\<exists>row. synthesize ii d = Inr row" using assms by (rule synthesize_total)
  ultimately show ?thesis by blast
qed

theorem lookups_in_bounds_witness:
  "0 \<le> sint (12 :: jlong) \<and> unit_draws sample_draws \<and>
   in_bounds symbols (int_cast (long_rem 12 6)) \<and>
   in_bounds cusips (int_cast (long_rem 12 6)) \<and>
   in_bounds venues (int_cast (long_rem 12 5)) \<and>
   in_bounds traders (int_cast (long_rem 12 4)) \<and>
   in_bounds books (int_cast (long_rem 12 3)) \<and>
   in_bounds counterparties (int_cast (java_round (dmul (u_counterparty sample_draws) 7))) \<and>
   in_bounds exec_statuses (int_cast (java_round (dmul (u_exec_status sample_draws) 4))) \<and>
   (\<exists>row. synthesize 12 sample_draws = Inr row)"
proof -
  have i: "0 \<le> sint (12 :: jlong)" by simp
  show ?thesis
    using lookups_in_bounds [OF i sample_unit_draws] i sample_unit_draws by blast
qed

subsection \<open>OrderId\<close>

text \<open>
  C9. For every row index \<open>ii \<ge> 0\<close>, \<open>OrderId\<close> is \<open>ORD-\<close> followed by
  \<open>ii mod 500\<close> zero-padded to 4 digits.
\<close>

theorem order_id_spec:
  assumes "0 \<le> sint ii"
  shows "order_id ii = ''ORD-'' @ zero_padded4 (nat (sint ii mod 500))"
proof -
  let ?k = "sint ii mod 500"
  have k: "0 \<le> ?k" "?k < 500" by simp_all
  have "sint (int_cast (long_rem ii 500)) = ?k"
    using assms by (intro idx_nonneg) simp_all
  moreover have "format_d 4 (int (nat ?k)) = zero_padded4 (nat ?k)"
    using k by (intro format_d_4) linarith
  ultimately show ?thesis using k by (simp add: order_id_def)
qed

theorem order_id_spec_witness:
  "0 \<le> sint (501 :: jlong) \<and> order_id 501 = ''ORD-0001''"
  using order_id_spec [of 501] by (simp add: zero_padded4_def) code_simp

subsection \<open>Price\<close>

text \<open>
  C10. For every generated row, \<open>Price\<close> is \<open>99 + k / 128\<close> for an integer \<open>k\<close> with
  \<open>0 \<le> k \<le> 400\<close>; so \<open>99 \<le> Price \<le> 102.125 = 817/8\<close>.
\<close>

theorem price_grid:
  assumes "synthesize ii d = Inr row" "unit_draws d"
  shows "(\<exists>k. 0 \<le> k \<and> k \<le> 400 \<and> Price row = 99 + of_int k / 128) \<and>
    99 \<le> Price row \<and> Price row \<le> 817 / 8"
proof -
  have "unit_draw (u_price d)" using assms(2) by (simp add: unit_draws_def)
  then obtain k where k: "0 \<le> k" "k \<le> 400" "price (u_price d) = 99 + of_int k / 128"
    using price_value by blast
  have p: "Price row = 99 + of_int k / 128"
    using synthesize_Inr(12) [OF assms(1)] k(3) by simp
  have "(0::rat) \<le> of_int k" "rat_of_int k \<le> 400" using k(1,2) by simp_all
  then have "99 \<le> Price row" "Price row \<le> 817 / 8" unfolding p by simp_all
  then show ?thesis using k(1,2) p by blast
qed

theorem price_grid_witness:
  "synthesize 12 sample_draws = Inr sample_row \<and> unit_draws sample_draws \<and>
   (\<exists>k. 0 \<le> k \<and> k \<le> 400 \<and> Price sample_row = 99 + of_int k / 128) \<and>
   99 \<le> Price sample_row \<and> Price sample_row \<le> 817 / 8"
  using price_grid [OF sample_synthesize sample_unit_draws] sample_synthesize
    sample_unit_draws
  by blast

end
